theory Spec2Isabelle
  imports Main "HOL-Library.Word" "HOL-Library.Sublist"
begin

unbundle bit_operations_syntax

section \<open>Machine types\<close>

text \<open>
  The module is built for WebAssembly (wasm32): bytes are \<open>uint8_t\<close>, nonces and hash
  limbs are \<open>uint32_t\<close>, pointers and \<open>size_t\<close> are 32 bits wide, and linear
  memory is little-endian.
\<close>

type_synonym byte = "8 word"
type_synonym u32 = "32 word"
type_synonym addr = "32 word"

section \<open>fulltest (src/wasm/src/fulltest.c)\<close>

text \<open>
  The loop \<open>for (i = 7; i >= 0; i--)\<close>. The counter of \<open>fulltest_loop\<close> is
  \<open>i + 1\<close>: at \<open>Suc i\<close> limb \<open>i\<close> is compared, at \<open>0\<close> the loop has run out
  and \<open>rc\<close> still holds its initial value \<open>true\<close>.
\<close>

fun fulltest_loop :: "nat \<Rightarrow> u32 list \<Rightarrow> u32 list \<Rightarrow> bool" where
  "fulltest_loop 0 hash target = True"
| "fulltest_loop (Suc i) hash target =
     (if hash ! i > target ! i then False
      else if hash ! i < target ! i then True
      else fulltest_loop i hash target)"

definition fulltest :: "u32 list \<Rightarrow> u32 list \<Rightarrow> bool" where
  "fulltest hash target = fulltest_loop 8 hash target"

text \<open>
  The unsigned integer whose 32-bit limbs are the words of the array, index 0 the least
  significant. It is the yardstick of the comparison, not part of the program.
\<close>

fun big_int :: "u32 list \<Rightarrow> nat" where
  "big_int [] = 0"
| "big_int (w # ws) = unat w + 2 ^ 32 * big_int ws"

section \<open>Byte order helpers and memory\<close>

text \<open>
  Modelled from the spec: \<open>le32dec\<close>, \<open>le32enc\<close> and \<open>be32enc\<close> are declared in
  miner.h, which is not among the sources. They are the usual byte-wise codecs of a 32-bit
  value: \<open>le32dec\<close> reads four bytes least significant first, \<open>le32enc\<close> writes the
  least significant byte first and \<open>be32enc\<close> the most significant byte first. A pointer
  argument is the list of bytes found from that address on.
\<close>

definition le32dec :: "byte list \<Rightarrow> u32" where
  "le32dec p = ucast (p ! 0) OR push_bit 8 (ucast (p ! 1)) OR
     push_bit 16 (ucast (p ! 2)) OR push_bit 24 (ucast (p ! 3))"

definition le32enc :: "u32 \<Rightarrow> byte list" where
  "le32enc x = [ucast x, ucast (drop_bit 8 x), ucast (drop_bit 16 x), ucast (drop_bit 24 x)]"

definition be32enc :: "u32 \<Rightarrow> byte list" where
  "be32enc x = [ucast (drop_bit 24 x), ucast (drop_bit 16 x), ucast (drop_bit 8 x), ucast x]"

text \<open>
  The inverse of \<open>be32enc\<close>. The program does not call it; it reads the nonce back out of
  a header that was handed to the hash function.
\<close>

definition be32dec :: "byte list \<Rightarrow> u32" where
  "be32dec p = push_bit 24 (ucast (p ! 0)) OR push_bit 16 (ucast (p ! 1)) OR
     push_bit 8 (ucast (p ! 2)) OR ucast (p ! 3)"

text \<open>
  Linear memory, which holds the caller's buffers, is a map from addresses to bytes.
  The unions \<open>data\<close> and \<open>hash\<close> are locals of the function: byte lists.
\<close>

type_synonym memory = "addr \<Rightarrow> byte"

definition read_bytes :: "memory \<Rightarrow> addr \<Rightarrow> nat \<Rightarrow> byte list" where
  "read_bytes m p len = map (\<lambda>i. m (p + of_nat i)) [0..<len]"

fun write_bytes :: "memory \<Rightarrow> addr \<Rightarrow> byte list \<Rightarrow> memory" where
  "write_bytes m p [] = m"
| "write_bytes m p (b # bs) = write_bytes (m(p := b)) (p + 1) bs"

text \<open>Overwriting \<open>length bs\<close> bytes of a local array from offset \<open>off\<close> on.\<close>

definition store_bytes :: "byte list \<Rightarrow> nat \<Rightarrow> byte list \<Rightarrow> byte list" where
  "store_bytes xs off bs = take off xs @ bs @ drop (off + length bs) xs"

text \<open>
  A \<open>uint32_t\<close> read through a cast pointer, \<open>((uint32_t* )p)[i]\<close>, takes the bytes in
  the byte order of the machine, which is little-endian for WebAssembly.
\<close>

definition host_load32 :: "memory \<Rightarrow> addr \<Rightarrow> u32" where
  "host_load32 m p = le32dec (read_bytes m p 4)"

definition load_words :: "memory \<Rightarrow> addr \<Rightarrow> nat \<Rightarrow> u32 list" where
  "load_words m p k = map (\<lambda>i. host_load32 m (p + 4 * of_nat i)) [0..<k]"

section \<open>scan_tidecoin_hash (src/wasm/src/wasm-wrapper.c)\<close>

text \<open>
  The state of the module that outlives a call: linear memory and the static counter
  \<open>hashes_done\<close>. The counter is assigned \<open>n - start_nonce + 1\<close>, an expression of
  type \<open>uint32_t\<close>, so its value always fits 32 bits.
\<close>

record module_state =
  mem :: memory
  hashes_done :: u32

text \<open>
  \<open>yespower_tls\<close> with the fixed parameters of the function is the hash oracle: it
  maps the 80 header bytes to the 32 digest bytes, or fails (a non-zero return,
  \<open>None\<close>).
\<close>

type_synonym hash_oracle = "byte list \<Rightarrow> byte list option"

text \<open>
  The loop \<open>for (i = 0; i < 8; i++) hash.u32[i] = le32dec(&hash.u32[i])\<close>: the eight
  limbs of the digest, each decoded from its four bytes.
\<close>

definition normalize_hash :: "byte list \<Rightarrow> u32 list" where
  "normalize_hash hash = map (\<lambda>i. le32dec (drop (4 * i) hash)) [0..<8]"

text \<open>
  The test of lines 80 to 84 that leads to \<open>return 1\<close>: the cheap comparison of the top
  limb with \<open>Htarg\<close>, and only when it passes, \<open>fulltest\<close> on the normalised digest.
\<close>

definition accepts :: "u32 \<Rightarrow> byte list \<Rightarrow> u32 list \<Rightarrow> bool" where
  "accepts Htarg hash target =
     (if le32dec (drop 28 hash) \<le> Htarg then
        (if fulltest (normalize_hash hash) target then True else False)
      else False)"

text \<open>
  Arithmetic of the nonce counter, for the termination of the loop below: below
  \<open>max_nonce\<close> the increment does not wrap, and it brings the counter closer.
\<close>

lemma word_succ_unat:
  fixes x m :: u32
  assumes "x < m"
  shows "unat (x + 1) = Suc (unat x)"
proof -
  have "x \<noteq> - 1" using assms by (metis max_word_max not_le)
  then have "x + 1 \<noteq> 0" using max_word_wrap [of x] by blast
  then show ?thesis by (simp add: unatSuc add.commute)
qed

lemma scan_loop_step_measure:
  fixes x max_nonce :: u32
  assumes "x < max_nonce"
  shows "unat (max_nonce - (x + 1)) < unat (max_nonce - x)"
proof -
  have a: "x \<le> max_nonce" using assms by simp
  have b: "x + 1 \<le> max_nonce" using assms by (rule inc_le)
  have "unat x < unat max_nonce" using assms by (simp add: word_less_nat_alt)
  then show ?thesis unfolding unat_sub [OF a] unat_sub [OF b] word_succ_unat [OF assms] by arith
qed

lemma scan_loop_measure:
  fixes n max_nonce :: u32
  assumes "n + 1 < max_nonce"
  shows "unat (max_nonce - (2 + n)) < unat (max_nonce - (n + 1))"
proof -
  have "n + 1 + 1 = 2 + n" by simp
  with scan_loop_step_measure [OF assms] show ?thesis by simp
qed

text \<open>
  The \<open>do ... while (n < max_nonce)\<close> loop. \<open>n\<close> is the nonce before the
  pre-increment, \<open>data\<close> the working copy of the header, \<open>calls\<close> the inputs of the
  oracle so far in this call (a ghost variable: what was hashed, in order). The result is
  the return value of the function, the state of the module and the oracle's inputs.
\<close>

function scan_loop ::
  "hash_oracle \<Rightarrow> addr \<Rightarrow> addr \<Rightarrow> u32 \<Rightarrow> u32 \<Rightarrow> u32 \<Rightarrow> byte list \<Rightarrow> u32 \<Rightarrow> byte list list \<Rightarrow>
   module_state \<Rightarrow> int \<times> module_state \<times> byte list list" where
  "scan_loop yespower block_data_ptr target_ptr start_nonce max_nonce Htarg data n calls s =
     (let n = n + 1;
          data = store_bytes data 76 (be32enc n);
          calls = calls @ [data]
      in case yespower data of
           None \<Rightarrow> (- 1, s, calls)
         | Some hash \<Rightarrow>
             if accepts Htarg hash (load_words (mem s) target_ptr 8)
             then (1, s\<lparr>hashes_done := n - start_nonce + 1,
                        mem := write_bytes (mem s) (block_data_ptr + 76) (le32enc n)\<rparr>, calls)
             else if n < max_nonce
             then scan_loop yespower block_data_ptr target_ptr start_nonce max_nonce Htarg
                    data n calls s
             else (0, s\<lparr>hashes_done := n - start_nonce + 1\<rparr>, calls))"
  by pat_completeness auto

termination
  by (relation "measure (\<lambda>(yespower, block_data_ptr, target_ptr, start_nonce, max_nonce,
        Htarg, data, n, calls, s). unat (max_nonce - (n + 1)))")
     (simp_all add: scan_loop_measure)

declare scan_loop.simps [simp del]

text \<open>
  Lines 66 to 71: \<open>memcpy(data.u8, block_data_ptr, 80)\<close>, then for each of the words 0
  to 18 \<open>data.u32[i] = le32dec(&block_data_ptr[i * 4])\<close>, a store in the byte order
  of the machine.
\<close>

definition load_header :: "memory \<Rightarrow> addr \<Rightarrow> byte list" where
  "load_header m block_data_ptr =
     fold (\<lambda>i data. store_bytes data (4 * i)
             (le32enc (le32dec (read_bytes m (block_data_ptr + of_nat (i * 4)) 4))))
       [0..<19] (read_bytes m block_data_ptr 80)"

text \<open>
  The function itself: \<open>n = start_nonce - 1\<close> in 32-bit arithmetic, \<open>Htarg\<close> is
  word 7 of the target, then the loop. The static arrays \<open>block_data\<close> and
  \<open>target_data\<close> of the file are never read or written and are left out.
\<close>

definition scan_tidecoin_hash ::
  "hash_oracle \<Rightarrow> addr \<Rightarrow> addr \<Rightarrow> u32 \<Rightarrow> u32 \<Rightarrow> module_state \<Rightarrow>
   int \<times> module_state \<times> byte list list" where
  "scan_tidecoin_hash yespower block_data_ptr target_ptr start_nonce max_nonce s =
     (let n = start_nonce - 1;
          Htarg = host_load32 (mem s) (target_ptr + 28);
          data = load_header (mem s) block_data_ptr
      in scan_loop yespower block_data_ptr target_ptr start_nonce max_nonce Htarg data n [] s)"

definition get_hashes_done :: "module_state \<Rightarrow> u32" where
  "get_hashes_done s = hashes_done s"

section \<open>Scratch regions (src/wasm/yespower-1.0.1/yespower-platform.c)\<close>

text \<open>
  Modelled from the spec: \<open>yespower_region_t\<close> is declared in yespower.h, which is not
  among the sources; it has the four fields the functions assign (the raw allocation
  handle, the aligned usable pointer, the raw size and the aligned size). Pointers and
  \<open>size_t\<close> are 32-bit words, and \<open>NULL\<close> is address 0.
\<close>

record yespower_region_t =
  base :: addr
  aligned :: addr
  base_size :: u32
  aligned_size :: u32

definition NULL :: addr where
  "NULL = 0"

text \<open>
  \<open>alloc_region\<close> assigns all four fields of the region it is handed, so the model
  returns the region together with the function's result. \<open>malloc\<close> is the allocator:
  it maps the requested size to the address of the block, or to \<open>NULL\<close>. The parameter
  \<open>sz\<close> is the source's \<open>size\<close>.
\<close>

definition alloc_region :: "(u32 \<Rightarrow> addr) \<Rightarrow> u32 \<Rightarrow> addr \<times> yespower_region_t" where
  "alloc_region malloc sz =
     (let base0 = malloc (sz + 63);
          (base1, aligned1) =
            (if base0 \<noteq> NULL
             then (let aligned0 = base0 + 63 in (base0, aligned0 - (aligned0 AND 63)))
             else (NULL, NULL))
      in (aligned1,
          \<lparr>base = base1, aligned = aligned1,
           base_size = (if base1 \<noteq> NULL then sz + 63 else 0),
           aligned_size = (if base1 \<noteq> NULL then sz else 0)\<rparr>))"

definition init_region :: "yespower_region_t \<Rightarrow> yespower_region_t" where
  "init_region region = region\<lparr>base := NULL, aligned := NULL, base_size := 0, aligned_size := 0\<rparr>"

text \<open>
  \<open>free_region\<close>: \<open>freed\<close> is the list of the pointers handed to \<open>free\<close> so far, the
  effect of the function on the allocator. The result is the return value, the region
  and that list.
\<close>

definition free_region ::
  "yespower_region_t \<Rightarrow> addr list \<Rightarrow> int \<times> yespower_region_t \<times> addr list" where
  "free_region region freed =
     (let freed = (if base region \<noteq> NULL then freed @ [base region] else freed)
      in (0, init_region region, freed))"

section \<open>Notions used to state the properties\<close>

text \<open>The nonce field of a header that was handed to the oracle, read big-endian.\<close>

definition nonce_of :: "byte list \<Rightarrow> u32" where
  "nonce_of header = be32dec (drop 76 header)"

text \<open>The header hashed for nonce \<open>k\<close>: the working copy with \<open>k\<close> in its last word.\<close>

definition header_for :: "byte list \<Rightarrow> u32 \<Rightarrow> byte list" where
  "header_for data k = store_bytes data 76 (be32enc k)"

text \<open>The nonces \<open>start_nonce, start_nonce + 1, ..., max_nonce\<close>, in order.\<close>

definition nonce_range :: "u32 \<Rightarrow> u32 \<Rightarrow> u32 list" where
  "nonce_range start_nonce max_nonce = map of_nat [unat start_nonce..<Suc (unat max_nonce)]"

text \<open>
  How the loop ends when nonce \<open>k\<close> is the last one hashed: the return value and the
  state of the module.
\<close>

definition loop_exit ::
  "hash_oracle \<Rightarrow> addr \<Rightarrow> addr \<Rightarrow> u32 \<Rightarrow> u32 \<Rightarrow> byte list \<Rightarrow> u32 \<Rightarrow> module_state \<Rightarrow>
   int \<times> module_state" where
  "loop_exit yespower block_data_ptr target_ptr start_nonce Htarg data k s =
     (case yespower (header_for data k) of
        None \<Rightarrow> (- 1, s)
      | Some hash \<Rightarrow>
          if accepts Htarg hash (load_words (mem s) target_ptr 8)
          then (1, s\<lparr>hashes_done := k - start_nonce + 1,
                     mem := write_bytes (mem s) (block_data_ptr + 76) (le32enc k)\<rparr>)
          else (0, s\<lparr>hashes_done := k - start_nonce + 1\<rparr>))"

text \<open>The addresses of a buffer of \<open>len\<close> bytes at \<open>p\<close>.\<close>

definition buffer_addrs :: "addr \<Rightarrow> nat \<Rightarrow> addr list" where
  "buffer_addrs p len = map (\<lambda>i. p + of_nat i) [0..<len]"

text \<open>
  Concrete inputs for the examples: a memory of zero bytes (so the header and the target
  are zero), an oracle whose digest is 32 zero bytes (accepted by the zero target), one
  whose digest is 32 bytes \<open>0xFF\<close> (rejected by it), one that fails at nonce 2, and
  one whose digest is zero at nonce 3 and \<open>0xFF\<close> bytes at every other nonce.
\<close>

definition zero_mem :: memory where
  "zero_mem = (\<lambda>a. 0)"

definition digest_zero :: hash_oracle where
  "digest_zero = (\<lambda>header. Some (replicate 32 0))"

definition digest_ones :: hash_oracle where
  "digest_ones = (\<lambda>header. Some (replicate 32 255))"

definition fails_at_two :: hash_oracle where
  "fails_at_two = (\<lambda>header. if nonce_of header = 2 then None else Some (replicate 32 255))"

definition wins_at_three :: hash_oracle where
  "wins_at_three =
     (\<lambda>header. Some (if nonce_of header = 3 then replicate 32 0 else replicate 32 255))"

definition fresh_state :: module_state where
  "fresh_state = \<lparr>mem = zero_mem, hashes_done = 0\<rparr>"

text \<open>An allocator for the examples: requests of up to 4096 bytes succeed at address 65537.\<close>

definition demo_malloc :: "u32 \<Rightarrow> addr" where
  "demo_malloc n = (if n \<le> 4096 then 65537 else NULL)"

section \<open>The comparator\<close>

lemma big_int_append: "big_int (xs @ [w]) = big_int xs + 2 ^ (32 * length xs) * unat w"
  by (induction xs) (simp_all add: algebra_simps power_add)

lemma big_int_bound: "big_int xs < 2 ^ (32 * length xs)"
proof (induction xs)
  case Nil
  then show ?case by simp
next
  case (Cons w ws)
  have "unat w < 2 ^ 32" using unsigned_less [of w] by simp
  moreover have "big_int ws + 1 \<le> 2 ^ (32 * length ws)" using Cons.IH by simp
  then have "2 ^ 32 * (big_int ws + 1) \<le> (2::nat) ^ 32 * 2 ^ (32 * length ws)"
    by (rule mult_le_mono2)
  ultimately show ?case by (simp add: power_add)
qed

text \<open>Comparing two numbers limb by limb, the upper limbs first.\<close>

lemma limb_compare:
  fixes A B M a b :: nat
  assumes "A < M" "B < M"
  shows "(A + M * a \<le> B + M * b) = (if b < a then False else if a < b then True else A \<le> B)"
proof -
  consider "b < a" | "a < b" | "a = b" by linarith
  then show ?thesis
  proof cases
    case 1
    then have "M * (b + 1) \<le> M * a" by (intro mult_le_mono2) simp
    with assms 1 show ?thesis by simp
  next
    case 2
    then have "M * (a + 1) \<le> M * b" by (intro mult_le_mono2) simp
    with assms 2 show ?thesis by simp
  next
    case 3
    then show ?thesis by simp
  qed
qed

lemma fulltest_loop_big_int:
  "k \<le> length d \<Longrightarrow> k \<le> length t \<Longrightarrow>
   fulltest_loop k d t = (big_int (take k d) \<le> big_int (take k t))"
proof (induction k)
  case 0
  then show ?case by simp
next
  case (Suc k)
  have d: "take (Suc k) d = take k d @ [d ! k]" and t: "take (Suc k) t = take k t @ [t ! k]"
    using Suc.prems by (simp_all add: take_Suc_conv_app_nth)
  have A: "big_int (take k d) < 2 ^ (32 * k)"
    using big_int_bound [of "take k d"] Suc.prems by simp
  have B: "big_int (take k t) < 2 ^ (32 * k)"
    using big_int_bound [of "take k t"] Suc.prems by simp
  have len: "length (take k d) = k" "length (take k t) = k" using Suc.prems by simp_all
  show ?case
    unfolding d t big_int_append len limb_compare [OF A B]
    using Suc by (simp add: word_less_nat_alt)
qed

text \<open>
  C1. For arrays \<open>d\<close> and \<open>t\<close> of eight words, \<open>fulltest d t\<close> is true exactly when the
  256-bit unsigned integer with the limbs of \<open>d\<close> (index 7 the most significant, index 0
  the least) is at most the one with the limbs of \<open>t\<close>; in particular \<open>fulltest t t\<close>
  is true.
\<close>

theorem fulltest_iff_le:
  "length d = 8 \<Longrightarrow> length t = 8 \<Longrightarrow>
     fulltest d t = (big_int d \<le> big_int t) \<and> fulltest t t"
  using fulltest_loop_big_int [of 8 d t] fulltest_loop_big_int [of 8 t t]
  by (simp add: fulltest_def)

theorem fulltest_iff_le_witness:
  "fulltest [9, 0, 0, 0, 0, 0, 0, 1] [3, 0, 0, 0, 0, 0, 0, 2] =
     (big_int [9, 0, 0, 0, 0, 0, 0, 1] \<le> big_int [3, 0, 0, 0, 0, 0, 0, 2]) \<and>
   fulltest [3, 0, 0, 0, 0, 0, 0, 2] [3, 0, 0, 0, 0, 0, 0, 2]"
  using fulltest_iff_le [of "[9, 0, 0, 0, 0, 0, 0, 1]" "[3, 0, 0, 0, 0, 0, 0, 2]"]
  by simp

section \<open>Byte order and local arrays\<close>

lemma length_be32enc [simp]: "length (be32enc x) = 4"
  by (simp add: be32enc_def)

lemma length_le32enc [simp]: "length (le32enc x) = 4"
  by (simp add: le32enc_def)

lemma le32enc_rev: "le32enc x = rev (be32enc x)"
  by (simp add: le32enc_def be32enc_def)

lemma be32dec_be32enc [simp]: "be32dec (be32enc x) = x"
proof (rule bit_word_eqI)
  fix n assume "n < LENGTH(32)"
  then consider "n < 8" | "8 \<le> n" "n < 16" | "16 \<le> n" "n < 24" | "24 \<le> n" "n < 32"
    by fastforce
  then show "bit (be32dec (be32enc x)) n = bit x n"
    by cases (auto simp: be32dec_def be32enc_def bit_simps)
qed

lemma le32dec_le32enc [simp]: "le32dec (le32enc x) = x"
proof (rule bit_word_eqI)
  fix n assume "n < LENGTH(32)"
  then consider "n < 8" | "8 \<le> n" "n < 16" | "16 \<le> n" "n < 24" | "24 \<le> n" "n < 32"
    by fastforce
  then show "bit (le32dec (le32enc x)) n = bit x n"
    by cases (auto simp: le32dec_def le32enc_def bit_simps)
qed

lemma length_store_bytes:
  "off + length bs \<le> length xs \<Longrightarrow> length (store_bytes xs off bs) = length xs"
  by (simp add: store_bytes_def)

lemma store_bytes_twice:
  "off \<le> length xs \<Longrightarrow> length as = length bs \<Longrightarrow>
   store_bytes (store_bytes xs off as) off bs = store_bytes xs off bs"
  by (simp add: store_bytes_def)

lemma drop_store_bytes:
  "length xs = off + length bs \<Longrightarrow> drop off (store_bytes xs off bs) = bs"
  by (simp add: store_bytes_def)

lemma length_header_for: "length data = 80 \<Longrightarrow> length (header_for data k) = 80"
  by (simp add: header_for_def length_store_bytes)

lemma header_for_twice:
  "length data = 80 \<Longrightarrow> header_for (header_for data j) k = header_for data k"
  by (simp add: header_for_def store_bytes_twice)

lemma drop_header_for: "length data = 80 \<Longrightarrow> drop 76 (header_for data k) = be32enc k"
  by (simp add: header_for_def drop_store_bytes)

lemma nonce_of_header_for: "length data = 80 \<Longrightarrow> nonce_of (header_for data k) = k"
  by (simp add: nonce_of_def drop_header_for)

lemma length_fold_keep:
  assumes "\<And>i d. i \<in> set xs \<Longrightarrow> length d = len \<Longrightarrow> length (f i d) = len"
    and "length d = len"
  shows "length (fold f xs d) = len"
  using assms by (induction xs arbitrary: d) simp_all

lemma length_load_header: "length (load_header m p) = 80"
  unfolding load_header_def
  by (rule length_fold_keep) (simp_all add: length_store_bytes read_bytes_def)

section \<open>One turn of the scan loop\<close>

lemma scan_loop_None:
  "yespower (header_for data (n + 1)) = None \<Longrightarrow>
   scan_loop yespower bp tp st mx H data n calls s =
     (- 1, s, calls @ [header_for data (n + 1)])"
  by (subst scan_loop.simps) (simp add: Let_def header_for_def)

lemma scan_loop_hit:
  "yespower (header_for data (n + 1)) = Some h \<Longrightarrow>
   accepts H h (load_words (mem s) tp 8) \<Longrightarrow>
   scan_loop yespower bp tp st mx H data n calls s =
     (1, s\<lparr>hashes_done := n + 1 - st + 1,
            mem := write_bytes (mem s) (bp + 76) (le32enc (n + 1))\<rparr>,
      calls @ [header_for data (n + 1)])"
  by (subst scan_loop.simps) (simp add: Let_def header_for_def)

lemma scan_loop_last:
  "yespower (header_for data (n + 1)) = Some h \<Longrightarrow>
   \<not> accepts H h (load_words (mem s) tp 8) \<Longrightarrow> \<not> n + 1 < mx \<Longrightarrow>
   scan_loop yespower bp tp st mx H data n calls s =
     (0, s\<lparr>hashes_done := n + 1 - st + 1\<rparr>, calls @ [header_for data (n + 1)])"
  by (subst scan_loop.simps) (simp add: Let_def header_for_def)

lemma scan_loop_next:
  "yespower (header_for data (n + 1)) = Some h \<Longrightarrow>
   \<not> accepts H h (load_words (mem s) tp 8) \<Longrightarrow> n + 1 < mx \<Longrightarrow>
   scan_loop yespower bp tp st mx H data n calls s =
     scan_loop yespower bp tp st mx H (header_for data (n + 1)) (n + 1)
       (calls @ [header_for data (n + 1)]) s"
  by (subst scan_loop.simps) (simp add: Let_def header_for_def)

text \<open>
  The loop hashes the nonces \<open>n + 1, ..., n + 1 + m\<close> for some \<open>m\<close> and ends as
  \<open>loop_exit\<close> says for the last of them; it ends with 0 only when that nonce is not
  below \<open>max_nonce\<close>.
\<close>

lemma scan_loop_char:
  assumes "length data = 80"
  shows "\<exists>m. (m = 0 \<or> unat (n + 1) + m \<le> unat mx) \<and>
           scan_loop yespower bp tp st mx H data n calls s =
             (fst (loop_exit yespower bp tp st H data (n + 1 + of_nat m) s),
              snd (loop_exit yespower bp tp st H data (n + 1 + of_nat m) s),
              calls @ map (\<lambda>i. header_for data (n + 1 + of_nat i)) [0..<Suc m]) \<and>
           (fst (loop_exit yespower bp tp st H data (n + 1 + of_nat m) s) = 0
              \<longrightarrow> \<not> n + 1 + of_nat m < mx)"
  using assms
proof (induction yespower bp tp st mx H data n calls s rule: scan_loop.induct)
  case (1 yespower bp tp st mx H data n calls s)
  let ?d = "header_for data (n + 1)"
  show ?case
  proof (cases "yespower ?d")
    case None
    show ?thesis
      by (rule exI [of _ 0]) (use None in \<open>simp add: scan_loop_None loop_exit_def\<close>)
  next
    case (Some h)
    show ?thesis
    proof (cases "accepts H h (load_words (mem s) tp 8)")
      case True
      show ?thesis
        by (rule exI [of _ 0]) (use Some True in \<open>simp add: scan_loop_hit loop_exit_def\<close>)
    next
      case False
      show ?thesis
      proof (cases "n + 1 < mx")
        case stop: False
        show ?thesis
          by (rule exI [of _ 0])
             (use Some False stop in \<open>simp add: scan_loop_last loop_exit_def\<close>)
      next
        case True
        have len: "length ?d = 80" using "1.prems" by (rule length_header_for)
        have d: "store_bytes data 76 (be32enc (n + 1)) = ?d" by (simp add: header_for_def)
        from "1.IH" [OF refl refl refl Some [folded d] False True] len
        obtain m where m: "m = 0 \<or> unat (n + 1 + 1) + m \<le> unat mx"
          and R: "scan_loop yespower bp tp st mx H ?d (n + 1) (calls @ [?d]) s =
             (fst (loop_exit yespower bp tp st H ?d (n + 1 + 1 + of_nat m) s),
              snd (loop_exit yespower bp tp st H ?d (n + 1 + 1 + of_nat m) s),
              (calls @ [?d]) @ map (\<lambda>i. header_for ?d (n + 1 + 1 + of_nat i)) [0..<Suc m])"
          and Z: "fst (loop_exit yespower bp tp st H ?d (n + 1 + 1 + of_nat m) s) = 0
              \<longrightarrow> \<not> n + 1 + 1 + of_nat m < mx"
          unfolding d by blast
        have ex: "loop_exit yespower bp tp st H ?d k s = loop_exit yespower bp tp st H data k s"
          for k using "1.prems" by (simp add: loop_exit_def header_for_twice)
        have hd: "header_for ?d k = header_for data k" for k
          using "1.prems" by (simp add: header_for_twice)
        have k: "n + 1 + 1 + of_nat m = n + 1 + of_nat (Suc m)" by simp
        have idx: "map (\<lambda>i. header_for data (n + 1 + of_nat i)) [0..<Suc (Suc m)] =
            ?d # map (\<lambda>i. header_for data (n + 1 + 1 + of_nat i)) [0..<Suc m]"
          unfolding map_upt_Suc [of _ "Suc m"] by (simp add: add.assoc)
        have "unat (n + 1) < unat mx" using True by (simp add: word_less_nat_alt)
        then have bound: "unat (n + 1) + Suc m \<le> unat mx"
          using m word_succ_unat [OF True] by auto
        have step: "scan_loop yespower bp tp st mx H data n calls s =
            scan_loop yespower bp tp st mx H ?d (n + 1) (calls @ [?d]) s"
          using Some False True by (rule scan_loop_next)
        have res: "scan_loop yespower bp tp st mx H data n calls s =
             (fst (loop_exit yespower bp tp st H data (n + 1 + of_nat (Suc m)) s),
              snd (loop_exit yespower bp tp st H data (n + 1 + of_nat (Suc m)) s),
              calls @ map (\<lambda>i. header_for data (n + 1 + of_nat i)) [0..<Suc (Suc m)])"
          unfolding step R ex hd k idx by simp
        have zero: "fst (loop_exit yespower bp tp st H data (n + 1 + of_nat (Suc m)) s) = 0
              \<longrightarrow> \<not> n + 1 + of_nat (Suc m) < mx"
          using Z unfolding ex k .
        from bound res zero show ?thesis by blast
      qed
    qed
  qed
qed

section \<open>Memory\<close>

lemma buffer_addrs_Suc: "buffer_addrs p (Suc len) = p # buffer_addrs (p + 1) len"
  unfolding buffer_addrs_def map_upt_Suc by (simp add: add.assoc)

lemma read_bytes_addrs: "read_bytes m p len = map m (buffer_addrs p len)"
  by (simp add: read_bytes_def buffer_addrs_def)

lemma write_bytes_frame:
  "a \<notin> set (buffer_addrs p (length bs)) \<Longrightarrow> write_bytes m p bs a = m a"
  by (induction bs arbitrary: m p) (simp_all add: buffer_addrs_Suc)

lemma read_write_nonce:
  fixes p :: addr
  shows "length bs = 4 \<Longrightarrow> read_bytes (write_bytes m p bs) p 4 = bs"
proof -
  assume "length bs = 4"
  then obtain a b c d where bs: "bs = [a, b, c, d]"
    by (cases bs; simp; cases "tl bs"; simp; cases "tl (tl bs)"; simp; cases "tl (tl (tl bs))"; simp)
  have u: "[0..<4] = [0, 1, 2, 3]" by (simp add: upt_rec)
  show ?thesis by (simp add: bs read_bytes_def u)
qed

lemma zero_mem_load32: "host_load32 zero_mem p = 0"
  by (simp add: host_load32_def read_bytes_def zero_mem_def le32dec_def)

section \<open>The whole scan\<close>

lemma scan_char:
  "\<exists>m. (m = 0 \<or> unat start + m \<le> unat mx) \<and>
     scan_tidecoin_hash yespower bp tp start mx s =
       (fst (loop_exit yespower bp tp start (host_load32 (mem s) (tp + 28))
               (load_header (mem s) bp) (start + of_nat m) s),
        snd (loop_exit yespower bp tp start (host_load32 (mem s) (tp + 28))
               (load_header (mem s) bp) (start + of_nat m) s),
        map (\<lambda>i. header_for (load_header (mem s) bp) (start + of_nat i)) [0..<Suc m]) \<and>
     (fst (loop_exit yespower bp tp start (host_load32 (mem s) (tp + 28))
               (load_header (mem s) bp) (start + of_nat m) s) = 0
        \<longrightarrow> \<not> start + of_nat m < mx)"
  using scan_loop_char [OF length_load_header, of "start - 1" mx yespower bp tp start
      "host_load32 (mem s) (tp + 28)" "mem s" bp "[]" s]
  by (simp add: scan_tidecoin_hash_def Let_def)

lemma unat_add_of_nat:
  fixes x mx :: u32
  assumes "unat x + m \<le> unat mx"
  shows "unat (x + of_nat m) = unat x + m"
proof -
  have lt: "unat mx < 2 ^ 32" using unsigned_less [of mx] by simp
  with assms have m: "m < 2 ^ 32" by simp
  then have "unat (of_nat m :: u32) = m" by (simp add: unat_of_nat)
  moreover have "unat x + m < 2 ^ LENGTH(32)" using assms lt by simp
  ultimately show ?thesis using unat_add_lem [of x "of_nat m"] by simp
qed

section \<open>Example scans\<close>

lemma fulltest_refl: "fulltest t t"
  by (simp add: fulltest_def eval_nat_numeral)

lemma normalize_hash_zero: "normalize_hash (replicate 32 0) = [0, 0, 0, 0, 0, 0, 0, 0]"
  by (simp add: normalize_hash_def le32dec_def upt_rec)

lemma load_words_zero_mem: "load_words zero_mem tp 8 = [0, 0, 0, 0, 0, 0, 0, 0]"
  by (simp add: load_words_def zero_mem_load32 upt_rec)

lemma accepts_zero: "accepts 0 (replicate 32 0) (load_words zero_mem tp 8)"
  by (simp add: accepts_def normalize_hash_zero load_words_zero_mem fulltest_refl le32dec_def)

lemma rejects_ones: "\<not> accepts 0 (replicate 32 255) (load_words zero_mem tp 8)"
  by (simp add: accepts_def le32dec_def)

lemma demo_found:
  "scan_tidecoin_hash digest_zero 0 128 1 1 fresh_state =
     (1, \<lparr>mem = write_bytes zero_mem 76 (le32enc 1), hashes_done = 1\<rparr>,
      [header_for (load_header zero_mem 0) 1])"
proof -
  have "scan_loop digest_zero 0 128 1 1 0 (load_header zero_mem 0) 0 [] fresh_state =
     (1, fresh_state\<lparr>hashes_done := 0 + 1 - 1 + 1,
            mem := write_bytes (mem fresh_state) (0 + 76) (le32enc (0 + 1))\<rparr>,
      [] @ [header_for (load_header zero_mem 0) (0 + 1)])"
    by (rule scan_loop_hit [where h = "replicate 32 0"])
       (simp_all add: digest_zero_def fresh_state_def accepts_zero)
  then show ?thesis
    by (simp add: scan_tidecoin_hash_def fresh_state_def zero_mem_load32)
qed

section \<open>The nonces of a scan\<close>

text \<open>
  With \<open>start \<le> mx\<close> the scan hashes the nonces \<open>start, ..., start + m\<close>, none above
  \<open>mx\<close>, ends as \<open>loop_exit\<close> says for the last one, and returns 0 only at \<open>mx\<close>.
\<close>

lemma scan_in_range:
  assumes "start \<le> mx"
  shows "\<exists>m. unat start + m \<le> unat mx \<and>
     snd (snd (scan_tidecoin_hash yespower bp tp start mx s)) =
        map (\<lambda>i. header_for (load_header (mem s) bp) (start + of_nat i)) [0..<Suc m] \<and>
     (fst (scan_tidecoin_hash yespower bp tp start mx s),
      fst (snd (scan_tidecoin_hash yespower bp tp start mx s))) =
        loop_exit yespower bp tp start (host_load32 (mem s) (tp + 28))
          (load_header (mem s) bp) (start + of_nat m) s \<and>
     (fst (scan_tidecoin_hash yespower bp tp start mx s) = 0 \<longrightarrow> start + of_nat m = mx)"
proof -
  let ?E = "\<lambda>m. loop_exit yespower bp tp start (host_load32 (mem s) (tp + 28))
          (load_header (mem s) bp) (start + of_nat m) s"
  from scan_char [of start mx yespower bp tp s]
  obtain m where m: "m = 0 \<or> unat start + m \<le> unat mx"
    and R: "scan_tidecoin_hash yespower bp tp start mx s =
       (fst (?E m), snd (?E m),
        map (\<lambda>i. header_for (load_header (mem s) bp) (start + of_nat i)) [0..<Suc m])"
    and Z: "fst (?E m) = 0 \<longrightarrow> \<not> start + of_nat m < mx"
    by blast
  have bound: "unat start + m \<le> unat mx"
    using m assms by (auto simp: word_le_nat_alt)
  have "unat (start + of_nat m) \<le> unat mx"
    using bound by (simp add: unat_add_of_nat)
  then have "start + of_nat m \<le> mx" by (simp add: word_le_nat_alt)
  with Z have "fst (?E m) = 0 \<longrightarrow> start + of_nat m = mx" by auto
  with bound R show ?thesis by (intro exI [of _ m]) simp
qed

lemma nonces_of_headers:
  "length data = 80 \<Longrightarrow>
   map nonce_of (map (\<lambda>i. header_for data (start + of_nat i)) [0..<len]) =
   map (\<lambda>i. start + of_nat i) [0..<len]"
  by (simp add: nonce_of_header_for)

lemma nonce_list_upt:
  fixes start :: u32
  shows "map (\<lambda>i. start + of_nat i) [0..<len] = map of_nat [unat start..<unat start + len]"
proof -
  have "[unat start..<unat start + len] = map (\<lambda>i. i + unat start) [0..<len]"
    using map_add_upt [of "unat start" len] by (simp add: add.commute)
  then show ?thesis by (simp add: comp_def add.commute)
qed

lemma nonce_range_prefix:
  assumes "unat start + m \<le> unat mx"
  shows "prefix (map (\<lambda>i. start + of_nat i) [0..<Suc m]) (nonce_range start mx)"
proof -
  have "[unat start..<Suc (unat mx)] =
      [unat start..<unat start + Suc m] @ [unat start + Suc m..<Suc (unat mx)]"
    using assms upt_add_eq_append [of "unat start" "unat start + Suc m" "unat mx - (unat start + m)"]
    by simp
  then have "nonce_range start mx =
      map (\<lambda>i. start + of_nat i) [0..<Suc m] @ map of_nat [unat start + Suc m..<Suc (unat mx)]"
    unfolding nonce_range_def nonce_list_upt by (simp only: map_append)
  then show ?thesis by simp
qed

text \<open>
  C10. For every \<open>start_nonce\<close>, 0 included, with \<open>start_nonce \<le> max_nonce\<close>: the loop
  starts from \<open>start_nonce - 1\<close> in wrapping 32-bit arithmetic and pre-increments, so
  the first nonce hashed is \<open>start_nonce\<close>; the nonces hashed, in order, are an initial
  segment of \<open>start_nonce, start_nonce + 1, ..., max_nonce\<close>, and each of them lies in
  that range.
\<close>

theorem scan_nonce_sequence:
  assumes "start_nonce \<le> max_nonce"
  shows "let calls = snd (snd (scan_tidecoin_hash yespower bp tp start_nonce max_nonce s)) in
     calls \<noteq> [] \<and> nonce_of (hd calls) = start_nonce \<and>
     prefix (map nonce_of calls) (nonce_range start_nonce max_nonce) \<and>
     (\<forall>c \<in> set calls. start_nonce \<le> nonce_of c \<and> nonce_of c \<le> max_nonce)"
proof -
  let ?d = "load_header (mem s) bp"
  from scan_in_range [OF assms, of yespower bp tp s]
  obtain m where m: "unat start_nonce + m \<le> unat max_nonce"
    and calls: "snd (snd (scan_tidecoin_hash yespower bp tp start_nonce max_nonce s)) =
        map (\<lambda>i. header_for ?d (start_nonce + of_nat i)) [0..<Suc m]"
    by blast
  have nonces: "map nonce_of (map (\<lambda>i. header_for ?d (start_nonce + of_nat i)) [0..<Suc m]) =
      map (\<lambda>i. start_nonce + of_nat i) [0..<Suc m]"
    by (rule nonces_of_headers) (rule length_load_header)
  have first: "hd (map (\<lambda>i. header_for ?d (start_nonce + of_nat i)) [0..<Suc m]) =
      header_for ?d start_nonce"
    unfolding map_upt_Suc by simp
  have inside: "start_nonce \<le> start_nonce + of_nat i \<and> start_nonce + of_nat i \<le> max_nonce"
    if "i < Suc m" for i
  proof -
    have "unat start_nonce + i \<le> unat max_nonce" using that m by simp
    then have "unat (start_nonce + of_nat i) = unat start_nonce + i"
      by (rule unat_add_of_nat)
    then show ?thesis using that m by (simp add: word_le_nat_alt)
  qed
  have all: "\<forall>c \<in> set (map (\<lambda>i. header_for ?d (start_nonce + of_nat i)) [0..<Suc m]).
      start_nonce \<le> nonce_of c \<and> nonce_of c \<le> max_nonce"
    using inside by (auto simp: nonce_of_header_for length_load_header)
  have pre: "prefix (map nonce_of (map (\<lambda>i. header_for ?d (start_nonce + of_nat i)) [0..<Suc m]))
      (nonce_range start_nonce max_nonce)"
    unfolding nonces by (rule nonce_range_prefix [OF m])
  have ne: "map (\<lambda>i. header_for ?d (start_nonce + of_nat i)) [0..<Suc m] \<noteq> []"
    by simp
  have hd: "nonce_of (hd (map (\<lambda>i. header_for ?d (start_nonce + of_nat i)) [0..<Suc m])) =
      start_nonce"
    unfolding first by (simp add: nonce_of_header_for length_load_header)
  from ne hd pre all show ?thesis
    unfolding Let_def calls by (intro conjI)
qed

theorem scan_nonce_sequence_witness:
  "snd (snd (scan_tidecoin_hash digest_ones 0 128 0 5 fresh_state)) \<noteq> [] \<and>
   nonce_of (hd (snd (snd (scan_tidecoin_hash digest_ones 0 128 0 5 fresh_state)))) = 0 \<and>
   prefix (map nonce_of (snd (snd (scan_tidecoin_hash digest_ones 0 128 0 5 fresh_state))))
     (nonce_range 0 5)"
  using scan_nonce_sequence [of 0 5 digest_ones 0 128 fresh_state]
  by (simp add: Let_def)

section \<open>How a scan ends\<close>

lemma loop_exit_cases:
  assumes "(r, s') = loop_exit yespower bp tp st H d k s"
  shows "(r = - 1 \<and> s' = s \<and> yespower (header_for d k) = None) \<or>
         (r = 1 \<and> s' = s\<lparr>hashes_done := k - st + 1,
                            mem := write_bytes (mem s) (bp + 76) (le32enc k)\<rparr>) \<or>
         (r = 0 \<and> s' = s\<lparr>hashes_done := k - st + 1\<rparr>)"
  using assms by (auto simp: loop_exit_def split: option.splits if_splits)

lemma scan_exit:
  "\<exists>k. snd (snd (scan_tidecoin_hash yespower bp tp start mx s)) \<noteq> [] \<and>
        last (snd (snd (scan_tidecoin_hash yespower bp tp start mx s))) =
          header_for (load_header (mem s) bp) k \<and>
        (fst (scan_tidecoin_hash yespower bp tp start mx s),
         fst (snd (scan_tidecoin_hash yespower bp tp start mx s))) =
          loop_exit yespower bp tp start (host_load32 (mem s) (tp + 28))
            (load_header (mem s) bp) k s"
proof -
  from scan_char [of start mx yespower bp tp s]
  obtain m where
    R: "scan_tidecoin_hash yespower bp tp start mx s =
       (fst (loop_exit yespower bp tp start (host_load32 (mem s) (tp + 28))
               (load_header (mem s) bp) (start + of_nat m) s),
        snd (loop_exit yespower bp tp start (host_load32 (mem s) (tp + 28))
               (load_header (mem s) bp) (start + of_nat m) s),
        map (\<lambda>i. header_for (load_header (mem s) bp) (start + of_nat i)) [0..<Suc m])"
    by blast
  show ?thesis
    by (rule exI [of _ "start + of_nat m"]) (simp add: R)
qed

text \<open>
  C3, as the code has it. Whenever \<open>scan_tidecoin_hash\<close> returns 1, with \<open>k\<close> the
  winning nonce (the nonce of the last header hashed): the header that was hashed holds
  \<open>k\<close> big-endian in its bytes 76 to 79, and the bytes 76 to 79 of the caller's header
  buffer hold \<open>k\<close> little-endian, the four bytes of the big-endian form in reverse.
\<close>

theorem scan_found_nonce_little_endian:
  assumes "fst (scan_tidecoin_hash yespower bp tp start_nonce max_nonce s) = 1"
  shows "let R = scan_tidecoin_hash yespower bp tp start_nonce max_nonce s;
             k = nonce_of (last (snd (snd R)))
         in snd (snd R) \<noteq> [] \<and>
            drop 76 (last (snd (snd R))) = be32enc k \<and>
            read_bytes (mem (fst (snd R))) (bp + 76) 4 = le32enc k \<and>
            le32enc k = rev (be32enc k)"
proof -
  let ?R = "scan_tidecoin_hash yespower bp tp start_nonce max_nonce s"
  let ?d = "load_header (mem s) bp"
  from scan_exit [of yespower bp tp start_nonce max_nonce s]
  obtain k where ne: "snd (snd ?R) \<noteq> []"
    and last: "last (snd (snd ?R)) = header_for ?d k"
    and ex: "(fst ?R, fst (snd ?R)) =
        loop_exit yespower bp tp start_nonce (host_load32 (mem s) (tp + 28)) ?d k s"
    by blast
  from loop_exit_cases [OF ex] assms
  have st: "fst (snd ?R) = s\<lparr>hashes_done := k - start_nonce + 1,
       mem := write_bytes (mem s) (bp + 76) (le32enc k)\<rparr>"
    by simp
  have k: "nonce_of (last (snd (snd ?R))) = k"
    unfolding last by (simp add: nonce_of_header_for length_load_header)
  have field: "drop 76 (last (snd (snd ?R))) = be32enc k"
    unfolding last by (simp add: drop_header_for length_load_header)
  have written: "read_bytes (mem (fst (snd ?R))) (bp + 76) 4 = le32enc k"
    unfolding st by (simp add: read_write_nonce)
  from ne field written show ?thesis
    unfolding Let_def k by (simp add: le32enc_rev)
qed

lemma demo_found_bytes: "le32enc 1 = [1, 0, 0, 0]" "be32enc 1 = [0, 0, 0, 1]"
  by (simp_all add: le32enc_def be32enc_def)

theorem scan_found_nonce_little_endian_witness:
  "read_bytes (mem (fst (snd (scan_tidecoin_hash digest_zero 0 128 1 1 fresh_state)))) (0 + 76) 4 =
     le32enc (nonce_of (last (snd (snd (scan_tidecoin_hash digest_zero 0 128 1 1 fresh_state)))))"
proof -
  have "fst (scan_tidecoin_hash digest_zero 0 128 1 1 fresh_state) = 1"
    by (simp add: demo_found)
  from scan_found_nonce_little_endian [OF this] show ?thesis
    by (simp add: Let_def)
qed

text \<open>
  The claim as the spec states it fails: the scan below returns 1 with winning nonce 1,
  the hashed header ends in the big-endian bytes 0, 0, 0, 1, and the caller's buffer ends
  in 1, 0, 0, 0.
\<close>

theorem scan_found_nonce_not_big_endian:
  "fst (scan_tidecoin_hash digest_zero 0 128 1 1 fresh_state) = 1 \<and>
   nonce_of (last (snd (snd (scan_tidecoin_hash digest_zero 0 128 1 1 fresh_state)))) = 1 \<and>
   drop 76 (last (snd (snd (scan_tidecoin_hash digest_zero 0 128 1 1 fresh_state)))) = [0, 0, 0, 1] \<and>
   be32enc 1 = [0, 0, 0, 1] \<and>
   read_bytes (mem (fst (snd (scan_tidecoin_hash digest_zero 0 128 1 1 fresh_state)))) 76 4 =
     [1, 0, 0, 0]"
proof -
  have "read_bytes (write_bytes zero_mem 76 (le32enc 1)) 76 4 = le32enc 1"
    by (rule read_write_nonce) simp
  then show ?thesis
    by (simp add: demo_found demo_found_bytes nonce_of_header_for drop_header_for
        length_load_header del: write_bytes.simps)
qed

section \<open>The pre-filter\<close>

lemma normalize_hash_top: "normalize_hash hash ! 7 = le32dec (drop 28 hash)"
  by (simp add: normalize_hash_def)

lemma load_words_top: "load_words m tp 8 ! 7 = host_load32 m (tp + 28)"
  by (simp add: load_words_def)

lemma fulltest_top_greater: "t ! 7 < d ! 7 \<Longrightarrow> \<not> fulltest d t"
  by (simp add: fulltest_def eval_nat_numeral)

text \<open>
  C2. \<open>Htarg\<close> is word 7 of the target as the function reads it. If the top word of the
  digest, decoded little-endian, is strictly greater than \<open>Htarg\<close> (the pre-filter skips
  the nonce), then \<open>fulltest\<close> on the normalised digest and the target is false; so the
  pre-filter skips no nonce that \<open>fulltest\<close> would accept, and the decision of the scan
  to accept is the decision of \<open>fulltest\<close>.
\<close>

theorem prefilter_sound:
  "(host_load32 m (tp + 28) < le32dec (drop 28 hash) \<longrightarrow>
      \<not> fulltest (normalize_hash hash) (load_words m tp 8)) \<and>
   accepts (host_load32 m (tp + 28)) hash (load_words m tp 8) =
     fulltest (normalize_hash hash) (load_words m tp 8)"
proof -
  have skip: "\<not> fulltest (normalize_hash hash) (load_words m tp 8)"
    if "host_load32 m (tp + 28) < le32dec (drop 28 hash)"
    using that by (intro fulltest_top_greater) (simp add: normalize_hash_top load_words_top)
  then show ?thesis by (auto simp: accepts_def not_le)
qed

theorem prefilter_sound_witness:
  "\<not> fulltest (normalize_hash (replicate 32 255)) (load_words zero_mem 0 8) \<and>
   accepts (host_load32 zero_mem 28) (replicate 32 255) (load_words zero_mem 0 8) =
     fulltest (normalize_hash (replicate 32 255)) (load_words zero_mem 0 8)"
proof -
  have "host_load32 zero_mem (0 + 28) < le32dec (drop 28 (replicate 32 255))"
    by (simp add: zero_mem_load32 le32dec_def)
  with prefilter_sound [of zero_mem 0 "replicate 32 255"] show ?thesis by simp
qed

section \<open>The progress counter\<close>

lemma unat_count:
  fixes k start :: u32
  assumes "start \<le> k"
  shows "unat (k - start + 1) = (unat k - unat start + 1) mod 2 ^ 32"
proof -
  have "unat (k - start + 1) = (unat (k - start) + unat (1 :: u32)) mod 2 ^ LENGTH(32)"
    by (rule unat_word_ariths)
  then show ?thesis using unat_sub [OF assms] by simp
qed

lemma unat_count_exact:
  fixes k start :: u32
  assumes "start \<le> k" and "\<not> (start = 0 \<and> k = - 1)"
  shows "unat (k - start + 1) = unat k - unat start + 1"
proof -
  have k: "unat k < 2 ^ 32" using unsigned_less [of k] by simp
  have le: "unat start \<le> unat k" using assms(1) by (simp add: word_le_nat_alt)
  have "unat k - unat start + 1 < 2 ^ 32"
  proof (cases "start = 0")
    case True
    with assms(2) have "k \<noteq> - 1" by simp
    then have "unat k \<noteq> unat (- 1 :: u32)" by (simp add: word_unat_eq_iff)
    then have "unat k \<noteq> 2 ^ 32 - 1" by (simp add: unsigned_minus_1_eq_mask mask_eq_exp_minus_1)
    with k True show ?thesis by simp
  next
    case False
    then have "unat start \<noteq> 0" by (simp add: unat_eq_0)
    with k le show ?thesis by simp
  qed
  then show ?thesis unfolding unat_count [OF assms(1)] by simp
qed

text \<open>
  With \<open>start \<le> mx\<close> and an oracle that never fails the scan returns 0 or 1; the
  counter is then \<open>k - start + 1\<close> in 32-bit arithmetic, where \<open>k\<close>, the nonce of the
  last header hashed, is \<open>mx\<close> on 0 and is the nonce written to the caller's buffer
  on 1.
\<close>

lemma scan_counter:
  assumes "start \<le> mx" and "\<forall>x. yespower x \<noteq> None"
  shows "let R = scan_tidecoin_hash yespower bp tp start mx s;
             k = nonce_of (last (snd (snd R)))
         in (fst R = 0 \<or> fst R = 1) \<and> start \<le> k \<and> k \<le> mx \<and>
            hashes_done (fst (snd R)) = k - start + 1 \<and>
            (fst R = 0 \<longrightarrow> k = mx) \<and>
            (fst R = 1 \<longrightarrow> read_bytes (mem (fst (snd R))) (bp + 76) 4 = le32enc k)"
proof -
  let ?R = "scan_tidecoin_hash yespower bp tp start mx s"
  let ?d = "load_header (mem s) bp"
  from scan_in_range [OF assms(1), of yespower bp tp s]
  obtain m where m: "unat start + m \<le> unat mx"
    and calls: "snd (snd ?R) = map (\<lambda>i. header_for ?d (start + of_nat i)) [0..<Suc m]"
    and ex: "(fst ?R, fst (snd ?R)) =
        loop_exit yespower bp tp start (host_load32 (mem s) (tp + 28)) ?d (start + of_nat m) s"
    and Z: "fst ?R = 0 \<longrightarrow> start + of_nat m = mx"
    by blast
  let ?k = "start + of_nat m"
  have "last (snd (snd ?R)) = header_for ?d ?k"
    unfolding calls by (simp add: last_map)
  then have k: "nonce_of (last (snd (snd ?R))) = ?k"
    by (simp add: nonce_of_header_for length_load_header)
  have uk: "unat ?k = unat start + m" using m by (rule unat_add_of_nat)
  have range: "start \<le> ?k" "?k \<le> mx" using m by (simp_all add: word_le_nat_alt uk)
  from loop_exit_cases [OF ex] assms(2)
  have cases: "(fst ?R = 1 \<and> fst (snd ?R) = s\<lparr>hashes_done := ?k - start + 1,
         mem := write_bytes (mem s) (bp + 76) (le32enc ?k)\<rparr>) \<or>
       (fst ?R = 0 \<and> fst (snd ?R) = s\<lparr>hashes_done := ?k - start + 1\<rparr>)"
    by auto
  then have ret: "fst ?R = 0 \<or> fst ?R = 1" and cnt: "hashes_done (fst (snd ?R)) = ?k - start + 1"
    by auto
  have wr: "fst ?R = 1 \<longrightarrow> read_bytes (mem (fst (snd ?R))) (bp + 76) 4 = le32enc ?k"
    using cases by (auto simp: read_write_nonce)
  from ret range cnt Z wr show ?thesis
    unfolding Let_def k by (intro conjI)
qed

text \<open>
  C5, as the code has it. For every scan with \<open>start_nonce \<le> max_nonce\<close> and an oracle
  that never fails, the result is 0 (NotFound) or 1 (Found); the counter read after the
  call is \<open>(max_nonce - start_nonce + 1) mod 2 ^ 32\<close> on NotFound and
  \<open>(k - start_nonce + 1) mod 2 ^ 32\<close> on Found at nonce \<open>k\<close>, whatever it held before
  the call. It is the exact number of hashes unless the scan ran from 0 to \<open>2 ^ 32 - 1\<close>,
  where it reads 0.
\<close>

theorem scan_hashes_done:
  assumes "start_nonce \<le> max_nonce" and "\<forall>x. yespower x \<noteq> None"
  shows "let R = scan_tidecoin_hash yespower bp tp start_nonce max_nonce s;
             k = nonce_of (last (snd (snd R)));
             counter = unat (get_hashes_done (fst (snd R)))
         in (fst R = 0 \<or> fst R = 1) \<and>
            (fst R = 0 \<longrightarrow>
               counter = (unat max_nonce - unat start_nonce + 1) mod 2 ^ 32 \<and>
               (\<not> (start_nonce = 0 \<and> max_nonce = - 1) \<longrightarrow>
                  counter = unat max_nonce - unat start_nonce + 1)) \<and>
            (fst R = 1 \<longrightarrow>
               start_nonce \<le> k \<and> k \<le> max_nonce \<and>
               read_bytes (mem (fst (snd R))) (bp + 76) 4 = le32enc k \<and>
               counter = (unat k - unat start_nonce + 1) mod 2 ^ 32 \<and>
               (\<not> (start_nonce = 0 \<and> k = - 1) \<longrightarrow>
                  counter = unat k - unat start_nonce + 1))"
proof -
  let ?R = "scan_tidecoin_hash yespower bp tp start_nonce max_nonce s"
  let ?k = "nonce_of (last (snd (snd ?R)))"
  from scan_counter [OF assms, of bp tp s]
  have ret: "fst ?R = 0 \<or> fst ?R = 1" and lo: "start_nonce \<le> ?k" and hi: "?k \<le> max_nonce"
    and cnt: "get_hashes_done (fst (snd ?R)) = ?k - start_nonce + 1"
    and Z: "fst ?R = 0 \<longrightarrow> ?k = max_nonce"
    and wr: "fst ?R = 1 \<longrightarrow> read_bytes (mem (fst (snd ?R))) (bp + 76) 4 = le32enc ?k"
    by (simp_all add: Let_def get_hashes_done_def)
  have wrapped: "unat (get_hashes_done (fst (snd ?R))) = (unat ?k - unat start_nonce + 1) mod 2 ^ 32"
    unfolding cnt by (rule unat_count [OF lo])
  have exact: "unat (get_hashes_done (fst (snd ?R))) = unat ?k - unat start_nonce + 1"
    if "\<not> (start_nonce = 0 \<and> ?k = - 1)"
    unfolding cnt using lo that by (rule unat_count_exact)
  have found: "fst ?R = 1 \<longrightarrow>
      start_nonce \<le> ?k \<and> ?k \<le> max_nonce \<and>
      read_bytes (mem (fst (snd ?R))) (bp + 76) 4 = le32enc ?k \<and>
      unat (get_hashes_done (fst (snd ?R))) = (unat ?k - unat start_nonce + 1) mod 2 ^ 32 \<and>
      (\<not> (start_nonce = 0 \<and> ?k = - 1) \<longrightarrow>
         unat (get_hashes_done (fst (snd ?R))) = unat ?k - unat start_nonce + 1)"
    using lo hi wr wrapped exact by blast
  have notfound: "fst ?R = 0 \<longrightarrow>
      unat (get_hashes_done (fst (snd ?R))) = (unat max_nonce - unat start_nonce + 1) mod 2 ^ 32 \<and>
      (\<not> (start_nonce = 0 \<and> max_nonce = - 1) \<longrightarrow>
         unat (get_hashes_done (fst (snd ?R))) = unat max_nonce - unat start_nonce + 1)"
    using Z wrapped exact by metis
  from ret notfound found show ?thesis
    unfolding Let_def by (intro conjI)
qed

lemma demo_rejected:
  "fst (scan_tidecoin_hash digest_ones bp tp start mx fresh_state) = 0"
proof -
  from scan_exit [of digest_ones bp tp start mx fresh_state]
  obtain k where "(fst (scan_tidecoin_hash digest_ones bp tp start mx fresh_state),
         fst (snd (scan_tidecoin_hash digest_ones bp tp start mx fresh_state))) =
          loop_exit digest_ones bp tp start (host_load32 (mem fresh_state) (tp + 28))
            (load_header (mem fresh_state) bp) k fresh_state"
    by blast
  then show ?thesis
    by (simp add: loop_exit_def digest_ones_def fresh_state_def zero_mem_load32 rejects_ones)
qed

theorem scan_hashes_done_witness:
  "unat (get_hashes_done (fst (snd (scan_tidecoin_hash digest_ones 0 128 0 2 fresh_state)))) = 3 \<and>
   unat (get_hashes_done (fst (snd (scan_tidecoin_hash digest_zero 0 128 1 1 fresh_state)))) = 1"
proof -
  have a: "(0 :: u32) \<le> 2" "\<forall>x. digest_ones x \<noteq> None"
    by (simp_all add: digest_ones_def)
  have b: "(1 :: u32) \<le> 1" "\<forall>x. digest_zero x \<noteq> None"
    by (simp_all add: digest_zero_def)
  have c: "fst (scan_tidecoin_hash digest_zero 0 128 1 1 fresh_state) = 1"
    "nonce_of (last (snd (snd (scan_tidecoin_hash digest_zero 0 128 1 1 fresh_state)))) = 1"
    by (simp_all add: demo_found nonce_of_header_for length_load_header)
  from scan_hashes_done [OF a, of 0 128 fresh_state] scan_hashes_done [OF b, of 0 128 fresh_state]
  show ?thesis
    by (simp add: Let_def demo_rejected c)
qed

text \<open>
  The claim as the spec states it fails for the scan of the whole range: it ends NotFound
  after \<open>2 ^ 32\<close> hashes, which is \<open>max_nonce - start_nonce + 1\<close>, and the counter
  reads 0.
\<close>

theorem scan_hashes_done_full_range:
  "(0 :: u32) \<le> 4294967295 \<and>
   fst (scan_tidecoin_hash digest_ones 0 128 0 4294967295 fresh_state) = 0 \<and>
   unat (get_hashes_done (fst (snd (scan_tidecoin_hash digest_ones 0 128 0 4294967295 fresh_state)))) = 0 \<and>
   unat (4294967295 :: u32) - unat (0 :: u32) + 1 = 4294967296"
proof -
  have a: "(0 :: u32) \<le> 4294967295" "\<forall>x. digest_ones x \<noteq> None"
    by (simp_all add: digest_ones_def)
  from scan_counter [OF a, of 0 128 fresh_state]
  show ?thesis
    by (simp add: Let_def demo_rejected get_hashes_done_def)
qed

section \<open>What a scan writes\<close>

lemma scan_memory:
  "let R = scan_tidecoin_hash yespower bp tp start mx s in
     (fst R \<noteq> 1 \<and> mem (fst (snd R)) = mem s) \<or>
     (fst R = 1 \<and> (\<exists>k. mem (fst (snd R)) = write_bytes (mem s) (bp + 76) (le32enc k)))"
proof -
  let ?R = "scan_tidecoin_hash yespower bp tp start mx s"
  from scan_exit [of yespower bp tp start mx s]
  obtain k where "(fst ?R, fst (snd ?R)) =
      loop_exit yespower bp tp start (host_load32 (mem s) (tp + 28)) (load_header (mem s) bp) k s"
    by blast
  from loop_exit_cases [OF this] show ?thesis
    unfolding Let_def by auto
qed

lemma read_bytes_frame:
  assumes "set (buffer_addrs q len) \<inter> set (buffer_addrs p (length bs)) = {}"
  shows "read_bytes (write_bytes m p bs) q len = read_bytes m q len"
proof -
  have "write_bytes m p bs a = m a" if "a \<in> set (buffer_addrs q len)" for a
    using that assms by (intro write_bytes_frame) blast
  then show ?thesis unfolding read_bytes_addrs by simp
qed

lemma header_prefix_disjoint:
  "set (buffer_addrs bp 76) \<inter> set (buffer_addrs (bp + 76) 4) = {}"
proof -
  have "bp + of_nat i \<noteq> bp + 76 + of_nat j" if "i < 76" "j < 4" for i j
  proof
    assume "bp + of_nat i = bp + 76 + of_nat j"
    then have "(of_nat i :: u32) = of_nat (76 + j)" by (simp add: add.assoc)
    then have "unat (of_nat i :: u32) = unat (of_nat (76 + j) :: u32)" by (rule arg_cong)
    then have "i mod 2 ^ LENGTH(32) = (76 + j) mod 2 ^ LENGTH(32)" by (simp only: unat_of_nat)
    then have "i = 76 + j" using that by simp
    with that show False by simp
  qed
  then show ?thesis by (auto simp: buffer_addrs_def)
qed

text \<open>
  C6. A scan that does not return 1 (NotFound, or the failure of the oracle) leaves all
  of memory, so every byte of the caller's header buffer, as it was. A scan that returns
  1 changes at most the four bytes at \<open>block_data_ptr + 76\<close>, the last four bytes of the
  header buffer. A target buffer of 32 bytes that does not overlap those four bytes reads
  the same after every scan.
\<close>

theorem scan_frame:
  "let R = scan_tidecoin_hash yespower bp tp start_nonce max_nonce s in
     (fst R \<noteq> 1 \<longrightarrow> mem (fst (snd R)) = mem s) \<and>
     (\<forall>a. a \<notin> set (buffer_addrs (bp + 76) 4) \<longrightarrow> mem (fst (snd R)) a = mem s a) \<and>
     read_bytes (mem (fst (snd R))) bp 76 = read_bytes (mem s) bp 76 \<and>
     (set (buffer_addrs tp 32) \<inter> set (buffer_addrs (bp + 76) 4) = {} \<longrightarrow>
        read_bytes (mem (fst (snd R))) tp 32 = read_bytes (mem s) tp 32)"
proof -
  let ?R = "scan_tidecoin_hash yespower bp tp start_nonce max_nonce s"
  from scan_memory [of yespower bp tp start_nonce max_nonce s]
  consider "fst ?R \<noteq> 1" "mem (fst (snd ?R)) = mem s"
    | k where "fst ?R = 1" "mem (fst (snd ?R)) = write_bytes (mem s) (bp + 76) (le32enc k)"
    unfolding Let_def by blast
  then show ?thesis
  proof cases
    case 1
    then show ?thesis unfolding Let_def by simp
  next
    case 2
    have a: "\<forall>a. a \<notin> set (buffer_addrs (bp + 76) 4) \<longrightarrow> mem (fst (snd ?R)) a = mem s a"
      unfolding 2 using write_bytes_frame [of _ "bp + 76" "le32enc k" "mem s"] by simp
    have b: "read_bytes (mem (fst (snd ?R))) tp 32 = read_bytes (mem s) tp 32"
      if "set (buffer_addrs tp 32) \<inter> set (buffer_addrs (bp + 76) 4) = {}"
      unfolding 2 using that by (intro read_bytes_frame) simp
    have c: "read_bytes (mem (fst (snd ?R))) bp 76 = read_bytes (mem s) bp 76"
      unfolding 2 using header_prefix_disjoint [of bp] by (intro read_bytes_frame) simp
    from 2 a b c show ?thesis unfolding Let_def by simp
  qed
qed

lemma demo_nonce_field: "set (buffer_addrs (0 + 76) 4) = {76, 77, 78, 79}"
  by (simp add: buffer_addrs_def upt_rec)

lemma demo_target_apart: "set (buffer_addrs 128 32) \<inter> set (buffer_addrs (0 + 76) 4) = {}"
  unfolding demo_nonce_field by (simp add: buffer_addrs_def upt_rec)

theorem scan_frame_witness:
  "mem (fst (snd (scan_tidecoin_hash digest_ones 0 128 0 2 fresh_state))) = mem fresh_state \<and>
   mem (fst (snd (scan_tidecoin_hash digest_zero 0 128 1 1 fresh_state))) 75 = mem fresh_state 75 \<and>
   read_bytes (mem (fst (snd (scan_tidecoin_hash digest_zero 0 128 1 1 fresh_state)))) 128 32 =
     read_bytes (mem fresh_state) 128 32"
proof -
  have a: "fst (scan_tidecoin_hash digest_ones 0 128 0 2 fresh_state) \<noteq> 1"
    by (simp add: demo_rejected)
  have b: "(75 :: addr) \<notin> set (buffer_addrs (0 + 76) 4)"
    unfolding demo_nonce_field by simp
  from scan_frame [of digest_ones 0 128 0 2 fresh_state]
    scan_frame [of digest_zero 0 128 1 1 fresh_state] a b demo_target_apart
  show ?thesis unfolding Let_def by blast
qed

section \<open>Failure of the oracle\<close>

text \<open>A scan that returns \<open>-1\<close> leaves the whole state, the counter included, as it was.\<close>

lemma scan_failure_state:
  assumes "fst (scan_tidecoin_hash yespower bp tp start mx s) = - 1"
  shows "fst (snd (scan_tidecoin_hash yespower bp tp start mx s)) = s"
proof -
  let ?R = "scan_tidecoin_hash yespower bp tp start mx s"
  from scan_exit [of yespower bp tp start mx s]
  obtain k where "(fst ?R, fst (snd ?R)) =
      loop_exit yespower bp tp start (host_load32 (mem s) (tp + 28)) (load_header (mem s) bp) k s"
    by blast
  from loop_exit_cases [OF this] assms show ?thesis by auto
qed

lemma fails_at_two_header:
  "length data = 80 \<Longrightarrow>
   fails_at_two (header_for data k) = (if k = 2 then None else Some (replicate 32 255))"
  by (simp add: fails_at_two_def nonce_of_header_for)

text \<open>
  C4 at a concrete input. The counter holds 7 from an earlier scan; the oracle fails at
  nonce 2 of a scan of the nonces 0 to 5. The scan hashes the nonces 0, 1 and 2 and
  returns \<open>-1\<close>, so two hashes were completed before the failure, and the counter still
  reads 7.
\<close>

theorem scan_failure_counter_stale:
  "fst (scan_tidecoin_hash fails_at_two 0 128 0 5 (fresh_state\<lparr>hashes_done := 7\<rparr>)) = - 1 \<and>
   map nonce_of (snd (snd (scan_tidecoin_hash fails_at_two 0 128 0 5
      (fresh_state\<lparr>hashes_done := 7\<rparr>)))) = [0, 1, 2] \<and>
   get_hashes_done (fst (snd (scan_tidecoin_hash fails_at_two 0 128 0 5
      (fresh_state\<lparr>hashes_done := 7\<rparr>)))) = 7"
proof -
  let ?s = "fresh_state\<lparr>hashes_done := 7\<rparr>"
  let ?d = "load_header zero_mem 0"
  have m: "mem ?s = zero_mem" by (simp add: fresh_state_def)
  have len: "length ?d = 80" by (rule length_load_header)
  have rej: "\<not> accepts 0 (replicate 32 255) (load_words (mem ?s) 128 8)"
    unfolding m by (rule rejects_ones)
  have s0: "scan_loop fails_at_two 0 128 0 5 0 ?d (- 1) [] ?s =
      scan_loop fails_at_two 0 128 0 5 0 (header_for ?d 0) 0 [header_for ?d 0] ?s"
    using scan_loop_next [where yespower = fails_at_two and data = ?d and n = "- 1"
        and h = "replicate 32 255" and H = 0 and s = ?s and tp = 128 and mx = 5 and bp = 0
        and st = 0 and calls = "[]"] rej
    by (simp add: fails_at_two_header len)
  have s1: "scan_loop fails_at_two 0 128 0 5 0 (header_for ?d 0) 0 [header_for ?d 0] ?s =
      scan_loop fails_at_two 0 128 0 5 0 (header_for ?d 1) 1 [header_for ?d 0, header_for ?d 1] ?s"
    using scan_loop_next [where yespower = fails_at_two and data = "header_for ?d 0" and n = 0
        and h = "replicate 32 255" and H = 0 and s = ?s and tp = 128 and mx = 5 and bp = 0
        and st = 0 and calls = "[header_for ?d 0]"] rej
    by (simp add: fails_at_two_header len header_for_twice)
  have s2: "scan_loop fails_at_two 0 128 0 5 0 (header_for ?d 1) 1
        [header_for ?d 0, header_for ?d 1] ?s =
      (- 1, ?s, [header_for ?d 0, header_for ?d 1, header_for ?d 2])"
    using scan_loop_None [where yespower = fails_at_two and data = "header_for ?d 1" and n = 1
        and H = 0 and s = ?s and tp = 128 and mx = 5 and bp = 0
        and st = 0 and calls = "[header_for ?d 0, header_for ?d 1]"]
    by (simp add: fails_at_two_header len header_for_twice)
  have "scan_tidecoin_hash fails_at_two 0 128 0 5 ?s =
      (- 1, ?s, [header_for ?d 0, header_for ?d 1, header_for ?d 2])"
    unfolding scan_tidecoin_hash_def Let_def m zero_mem_load32
    using s0 s1 s2 by simp
  then show ?thesis
    by (simp add: nonce_of_header_for len get_hashes_done_def)
qed

section \<open>Scanning a range in two parts\<close>

text \<open>
  What the loop returns, what it leaves in memory and which headers it hashes do not
  depend on \<open>start_nonce\<close>, on the counter, on the nonce bytes of the working copy or on
  the headers hashed before.
\<close>

lemma scan_loop_obs:
  assumes "\<And>k. header_for data2 k = header_for data k" and "mem s2 = mem s"
  shows "fst (scan_loop yespower bp tp st mx H data n calls s) =
           fst (scan_loop yespower bp tp st2 mx H data2 n calls2 s2) \<and>
         mem (fst (snd (scan_loop yespower bp tp st mx H data n calls s))) =
           mem (fst (snd (scan_loop yespower bp tp st2 mx H data2 n calls2 s2))) \<and>
         (\<exists>new. snd (snd (scan_loop yespower bp tp st mx H data n calls s)) = calls @ new \<and>
                snd (snd (scan_loop yespower bp tp st2 mx H data2 n calls2 s2)) = calls2 @ new)"
  using assms
proof (induction yespower bp tp st mx H data n calls s arbitrary: data2 calls2
    rule: scan_loop.induct)
  case (1 yespower bp tp st mx H data n calls s)
  let ?d = "header_for data (n + 1)"
  have d2: "header_for data2 (n + 1) = ?d" by (rule "1.prems"(1))
  show ?case
  proof (cases "yespower ?d")
    case None
    then show ?thesis
      using scan_loop_None [of yespower data n bp tp st mx H calls s]
        scan_loop_None [of yespower data2 n bp tp st2 mx H calls2 s2]
      by (simp add: d2 "1.prems"(2))
  next
    case (Some h)
    show ?thesis
    proof (cases "accepts H h (load_words (mem s) tp 8)")
      case True
      then show ?thesis
        using scan_loop_hit [of yespower data n h H s tp bp st mx calls]
          scan_loop_hit [of yespower data2 n h H s2 tp bp st2 mx calls2] Some
        by (simp add: d2 "1.prems"(2))
    next
      case False
      show ?thesis
      proof (cases "n + 1 < mx")
        case stop: False
        then show ?thesis
          using scan_loop_last [of yespower data n h H s tp mx bp st calls]
            scan_loop_last [of yespower data2 n h H s2 tp mx bp st2 calls2] Some False
          by (simp add: d2 "1.prems"(2))
      next
        case True
        have d: "store_bytes data 76 (be32enc (n + 1)) = ?d" by (simp add: header_for_def)
        have a: "scan_loop yespower bp tp st mx H data n calls s =
            scan_loop yespower bp tp st mx H ?d (n + 1) (calls @ [?d]) s"
          using Some False True by (rule scan_loop_next)
        have b: "scan_loop yespower bp tp st2 mx H data2 n calls2 s2 =
            scan_loop yespower bp tp st2 mx H ?d (n + 1) (calls2 @ [?d]) s2"
          using scan_loop_next [of yespower data2 n h H s2 tp mx bp st2 calls2] Some False True
          by (simp add: d2 "1.prems"(2))
        from "1.IH" [OF refl refl refl Some [folded d] False True, unfolded d,
            of ?d "calls2 @ [?d]"] "1.prems"(2)
        show ?thesis unfolding a b by auto
      qed
    qed
  qed
qed

text \<open>
  Raising the bound from \<open>mx\<close> to \<open>mx2\<close>: a loop that ends before \<open>mx\<close> is
  exhausted ends the same way; one that returns 0 at \<open>mx\<close> goes on from there.
\<close>

lemma scan_loop_split:
  assumes "n + 1 \<le> mx" and "mx < mx2" and "length data = 80"
  shows "(fst (scan_loop yespower bp tp st mx H data n calls s) \<noteq> 0 \<longrightarrow>
            scan_loop yespower bp tp st mx2 H data n calls s =
            scan_loop yespower bp tp st mx H data n calls s) \<and>
         (fst (scan_loop yespower bp tp st mx H data n calls s) = 0 \<longrightarrow>
            scan_loop yespower bp tp st mx2 H data n calls s =
            scan_loop yespower bp tp st mx2 H (header_for data mx) mx
              (snd (snd (scan_loop yespower bp tp st mx H data n calls s))) s)"
  using assms
proof (induction yespower bp tp st mx H data n calls s rule: scan_loop.induct)
  case (1 yespower bp tp st mx H data n calls s)
  let ?d = "header_for data (n + 1)"
  show ?case
  proof (cases "yespower ?d")
    case None
    then show ?thesis
      using scan_loop_None [of yespower data n bp tp st mx H calls s]
        scan_loop_None [of yespower data n bp tp st mx2 H calls s]
      by simp
  next
    case (Some h)
    show ?thesis
    proof (cases "accepts H h (load_words (mem s) tp 8)")
      case True
      then show ?thesis
        using scan_loop_hit [of yespower data n h H s tp bp st mx calls]
          scan_loop_hit [of yespower data n h H s tp bp st mx2 calls] Some
        by simp
    next
      case False
      have far: "n + 1 < mx2" using "1.prems"(1,2) by simp
      have long: "scan_loop yespower bp tp st mx2 H data n calls s =
          scan_loop yespower bp tp st mx2 H ?d (n + 1) (calls @ [?d]) s"
        using Some False far by (rule scan_loop_next)
      show ?thesis
      proof (cases "n + 1 < mx")
        case stop: False
        with "1.prems"(1) have eq: "n + 1 = mx" by simp
        have short: "scan_loop yespower bp tp st mx H data n calls s =
            (0, s\<lparr>hashes_done := n + 1 - st + 1\<rparr>, calls @ [?d])"
          using Some False stop by (rule scan_loop_last)
        show ?thesis
          unfolding long short using "1.prems"(3) by (simp add: eq [symmetric] header_for_twice)
      next
        case True
        have d: "store_bytes data 76 (be32enc (n + 1)) = ?d" by (simp add: header_for_def)
        have short: "scan_loop yespower bp tp st mx H data n calls s =
            scan_loop yespower bp tp st mx H ?d (n + 1) (calls @ [?d]) s"
          using Some False True by (rule scan_loop_next)
        have nxt: "n + 1 + 1 \<le> mx" using True by (rule inc_le)
        have len: "length ?d = 80" using "1.prems"(3) by (rule length_header_for)
        from "1.IH" [OF refl refl refl Some [folded d] False True, unfolded d, OF nxt "1.prems"(2) len]
        show ?thesis
          unfolding long short using "1.prems"(3) by (simp add: header_for_twice)
      qed
    qed
  qed
qed

text \<open>
  C7. For \<open>start \<le> mx < mx2\<close> and any oracle (a function of the header, so
  deterministic), let \<open>R1\<close> be the scan of \<open>[start, mx]\<close>, \<open>R2\<close> the scan of
  \<open>[mx + 1, mx2]\<close> run on the state \<open>R1\<close> leaves, and \<open>R\<close> the single scan of
  \<open>[start, mx2]\<close>. If \<open>R1\<close> does not return 0 (it found a nonce, or the oracle
  failed) then \<open>R\<close> is \<open>R1\<close>: same result, same state, same headers hashed. If
  \<open>R1\<close> returns 0 then \<open>R\<close> and \<open>R2\<close> return the same value, leave the same memory
  (so the same winning nonce in the header buffer) and end on the same header, and the
  headers \<open>R\<close> hashes are those of \<open>R1\<close> followed by those of \<open>R2\<close>: no nonce is
  skipped or tried twice.
\<close>

theorem split_scan:
  assumes "start \<le> mx" and "mx < mx2"
  shows "let R1 = scan_tidecoin_hash yespower bp tp start mx s;
             R2 = scan_tidecoin_hash yespower bp tp (mx + 1) mx2 (fst (snd R1));
             R = scan_tidecoin_hash yespower bp tp start mx2 s
         in (fst R1 \<noteq> 0 \<longrightarrow> R = R1) \<and>
            (fst R1 = 0 \<longrightarrow>
               fst R = fst R2 \<and> mem (fst (snd R)) = mem (fst (snd R2)) \<and>
               snd (snd R) = snd (snd R1) @ snd (snd R2) \<and>
               last (snd (snd R)) = last (snd (snd R2)))"
proof -
  let ?H = "host_load32 (mem s) (tp + 28)"
  let ?d = "load_header (mem s) bp"
  let ?R1 = "scan_tidecoin_hash yespower bp tp start mx s"
  let ?R2 = "scan_tidecoin_hash yespower bp tp (mx + 1) mx2 (fst (snd ?R1))"
  let ?R = "scan_tidecoin_hash yespower bp tp start mx2 s"
  have R1: "?R1 = scan_loop yespower bp tp start mx ?H ?d (start - 1) [] s"
    and R: "?R = scan_loop yespower bp tp start mx2 ?H ?d (start - 1) [] s"
    by (simp_all add: scan_tidecoin_hash_def Let_def)
  have first: "start - 1 + 1 \<le> mx" using assms(1) by simp
  note split = scan_loop_split [OF first assms(2) length_load_header,
      of yespower bp tp start ?H "mem s" bp "[]" s, folded R1 R]
  have early: "fst ?R1 \<noteq> 0 \<longrightarrow> ?R = ?R1" using split by blast
  have late: "fst ?R = fst ?R2 \<and> mem (fst (snd ?R)) = mem (fst (snd ?R2)) \<and>
      snd (snd ?R) = snd (snd ?R1) @ snd (snd ?R2) \<and>
      last (snd (snd ?R)) = last (snd (snd ?R2))"
    if zero: "fst ?R1 = 0"
  proof -
    from scan_memory [of yespower bp tp start mx s] zero
    have m: "mem (fst (snd ?R1)) = mem s" unfolding Let_def by auto
    have "scan_tidecoin_hash yespower bp tp (mx + 1) mx2 s' =
        scan_loop yespower bp tp (mx + 1) mx2 (host_load32 (mem s') (tp + 28))
          (load_header (mem s') bp) mx [] s'" for s'
      by (simp add: scan_tidecoin_hash_def Let_def)
    from this [of "fst (snd ?R1)"]
    have R2: "?R2 = scan_loop yespower bp tp (mx + 1) mx2 ?H ?d mx [] (fst (snd ?R1))"
      unfolding m .
    have cont: "?R = scan_loop yespower bp tp start mx2 ?H (header_for ?d mx) mx (snd (snd ?R1)) s"
      using split zero by blast
    have hf: "header_for ?d k = header_for (header_for ?d mx) k" for k
      by (simp add: header_for_twice length_load_header)
    from scan_loop_obs [of ?d "header_for ?d mx" "fst (snd ?R1)" s yespower bp tp start mx2 ?H mx
        "snd (snd ?R1)" "mx + 1" "[]", OF hf m, folded cont R2]
    obtain new where "fst ?R = fst ?R2" "mem (fst (snd ?R)) = mem (fst (snd ?R2))"
      "snd (snd ?R) = snd (snd ?R1) @ new" "snd (snd ?R2) = new"
      by auto
    moreover from scan_exit [of yespower bp tp "mx + 1" mx2 "fst (snd ?R1)"]
    have "snd (snd ?R2) \<noteq> []" by blast
    ultimately show ?thesis by simp
  qed
  from early late show ?thesis unfolding Let_def by blast
qed

lemma wins_at_three_header:
  "length data = 80 \<Longrightarrow>
   wins_at_three (header_for data k) =
     Some (if k = 3 then replicate 32 0 else replicate 32 255)"
  by (simp add: wins_at_three_def nonce_of_header_for)

lemma demo_first_part:
  "scan_tidecoin_hash wins_at_three 0 128 0 1 fresh_state =
     (0, fresh_state\<lparr>hashes_done := 2\<rparr>,
      [header_for (load_header zero_mem 0) 0, header_for (load_header zero_mem 0) 1])"
proof -
  let ?s = "fresh_state"
  let ?d = "load_header zero_mem 0"
  have m: "mem ?s = zero_mem" by (simp add: fresh_state_def)
  have len: "length ?d = 80" by (rule length_load_header)
  have rej: "\<not> accepts 0 (replicate 32 255) (load_words (mem ?s) 128 8)"
    unfolding m by (rule rejects_ones)
  have s0: "scan_loop wins_at_three 0 128 0 1 0 ?d (- 1) [] ?s =
      scan_loop wins_at_three 0 128 0 1 0 (header_for ?d 0) 0 [header_for ?d 0] ?s"
    using scan_loop_next [where yespower = wins_at_three and data = ?d and n = "- 1"
        and h = "replicate 32 255" and H = 0 and s = ?s and tp = 128 and mx = 1 and bp = 0
        and st = 0 and calls = "[]"] rej
    by (simp add: wins_at_three_header len)
  have s1: "scan_loop wins_at_three 0 128 0 1 0 (header_for ?d 0) 0 [header_for ?d 0] ?s =
      (0, ?s\<lparr>hashes_done := 2\<rparr>, [header_for ?d 0, header_for ?d 1])"
    using scan_loop_last [where yespower = wins_at_three and data = "header_for ?d 0" and n = 0
        and h = "replicate 32 255" and H = 0 and s = ?s and tp = 128 and mx = 1 and bp = 0
        and st = 0 and calls = "[header_for ?d 0]"] rej
    by (simp add: wins_at_three_header len header_for_twice)
  show ?thesis
    unfolding scan_tidecoin_hash_def Let_def m zero_mem_load32
    using s0 s1 by simp
qed

lemma demo_second_part:
  "scan_tidecoin_hash wins_at_three 0 128 2 5 (fresh_state\<lparr>hashes_done := 2\<rparr>) =
     (1, fresh_state\<lparr>hashes_done := 2, mem := write_bytes zero_mem 76 (le32enc 3)\<rparr>,
      [header_for (load_header zero_mem 0) 2, header_for (load_header zero_mem 0) 3])"
proof -
  let ?s = "fresh_state\<lparr>hashes_done := 2\<rparr>"
  let ?d = "load_header zero_mem 0"
  have m: "mem ?s = zero_mem" by (simp add: fresh_state_def)
  have len: "length ?d = 80" by (rule length_load_header)
  have rej: "\<not> accepts 0 (replicate 32 255) (load_words (mem ?s) 128 8)"
    unfolding m by (rule rejects_ones)
  have acc: "accepts 0 (replicate 32 0) (load_words (mem ?s) 128 8)"
    unfolding m by (rule accepts_zero)
  have s0: "scan_loop wins_at_three 0 128 2 5 0 ?d 1 [] ?s =
      scan_loop wins_at_three 0 128 2 5 0 (header_for ?d 2) 2 [header_for ?d 2] ?s"
    using scan_loop_next [where yespower = wins_at_three and data = ?d and n = 1
        and h = "replicate 32 255" and H = 0 and s = ?s and tp = 128 and mx = 5 and bp = 0
        and st = 2 and calls = "[]"] rej
    by (simp add: wins_at_three_header len)
  have s1: "scan_loop wins_at_three 0 128 2 5 0 (header_for ?d 2) 2 [header_for ?d 2] ?s =
      (1, fresh_state\<lparr>hashes_done := 2, mem := write_bytes zero_mem 76 (le32enc 3)\<rparr>,
       [header_for ?d 2, header_for ?d 3])"
    using scan_loop_hit [where yespower = wins_at_three and data = "header_for ?d 2" and n = 2
        and h = "replicate 32 0" and H = 0 and s = ?s and tp = 128 and mx = 5 and bp = 0
        and st = 2 and calls = "[header_for ?d 2]"] acc
    by (simp add: wins_at_three_header len header_for_twice m del: write_bytes.simps)
  show ?thesis
    unfolding scan_tidecoin_hash_def Let_def m zero_mem_load32
    using s0 s1 by simp
qed

theorem split_scan_witness:
  "fst (scan_tidecoin_hash wins_at_three 0 128 0 5 fresh_state) = 1 \<and>
   map nonce_of (snd (snd (scan_tidecoin_hash wins_at_three 0 128 0 5 fresh_state))) =
     [0, 1, 2, 3] \<and>
   mem (fst (snd (scan_tidecoin_hash wins_at_three 0 128 0 5 fresh_state))) =
     write_bytes zero_mem 76 (le32enc 3)"
proof -
  have a: "(0 :: u32) \<le> 1" "(1 :: u32) < 5" by simp_all
  have len: "length (load_header zero_mem 0) = 80" by (rule length_load_header)
  from split_scan [OF a, of wins_at_three 0 128 fresh_state]
  show ?thesis
    unfolding Let_def demo_first_part
    by (simp add: demo_second_part nonce_of_header_for len del: write_bytes.simps)
qed

section \<open>Scratch regions\<close>

lemma unat_low_bits:
  fixes x :: addr
  shows "unat (x AND 63) = unat x mod 64"
proof -
  have "x AND 63 = take_bit 6 x" by (simp add: take_bit_eq_mask mask_eq_exp_minus_1)
  then have "unat (x AND 63) = take_bit 6 (unat x)" by (simp add: unsigned_take_bit_eq)
  then show ?thesis by (simp add: take_bit_eq_mod)
qed

lemma unat_align_down:
  fixes x :: addr
  shows "unat (x - (x AND 63)) = unat x - unat x mod 64"
proof -
  have "x AND 63 \<le> x" by (simp add: word_le_nat_alt unat_low_bits)
  then show ?thesis by (simp add: unat_sub unat_low_bits)
qed

lemma aligned_low_bits:
  fixes x :: addr
  shows "(x - (x AND 63)) AND 63 = 0"
proof -
  have "unat ((x - (x AND 63)) AND 63) = 0"
    unfolding unat_low_bits unat_align_down by (simp add: minus_mod_eq_mult_div)
  then show ?thesis by (simp add: unat_eq_0)
qed

text \<open>
  C8. When \<open>malloc (sz + 63)\<close> succeeds with a block of \<open>sz + 63\<close> bytes at \<open>b\<close> (the
  block lies inside the address space, so the sum does not wrap), the usable pointer is
  a multiple of 64, it and the \<open>sz\<close> bytes after it lie within the block,
  \<open>base_size = sz + 63\<close> and \<open>aligned_size = sz\<close>. When \<open>malloc\<close> fails, \<open>base\<close> and
  \<open>aligned\<close> are \<open>NULL\<close> and both sizes are 0. The function returns the usable pointer.
\<close>

theorem alloc_region_post:
  "(malloc (sz + 63) = b \<and> b \<noteq> NULL \<and> unat b + (unat sz + 63) < 2 ^ 32 \<longrightarrow>
      (let (p, region) = alloc_region malloc sz in
         p = aligned region \<and> base region = b \<and>
         unat (aligned region) mod 64 = 0 \<and> aligned region AND 63 = 0 \<and>
         unat b \<le> unat (aligned region) \<and>
         unat (aligned region) + unat sz \<le> unat b + (unat sz + 63) \<and>
         base_size region = sz + 63 \<and> unat (base_size region) = unat sz + 63 \<and>
         aligned_size region = sz)) \<and>
   (malloc (sz + 63) = NULL \<longrightarrow>
      alloc_region malloc sz =
        (NULL, \<lparr>base = NULL, aligned = NULL, base_size = 0, aligned_size = 0\<rparr>))"
proof -
  have fail: "alloc_region malloc sz =
      (NULL, \<lparr>base = NULL, aligned = NULL, base_size = 0, aligned_size = 0\<rparr>)"
    if "malloc (sz + 63) = NULL"
    using that by (simp add: alloc_region_def Let_def)
  have ok: "let (p, region) = alloc_region malloc sz in
         p = aligned region \<and> base region = b \<and>
         unat (aligned region) mod 64 = 0 \<and> aligned region AND 63 = 0 \<and>
         unat b \<le> unat (aligned region) \<and>
         unat (aligned region) + unat sz \<le> unat b + (unat sz + 63) \<and>
         base_size region = sz + 63 \<and> unat (base_size region) = unat sz + 63 \<and>
         aligned_size region = sz"
    if m: "malloc (sz + 63) = b" and nn: "b \<noteq> NULL" and fit: "unat b + (unat sz + 63) < 2 ^ 32"
  proof -
    let ?x = "b + 63"
    let ?a = "?x - (?x AND 63)"
    have R: "alloc_region malloc sz =
        (?a, \<lparr>base = b, aligned = ?a, base_size = sz + 63, aligned_size = sz\<rparr>)"
      using m nn by (simp add: alloc_region_def Let_def)
    have "unat b + unat (63 :: addr) < 2 ^ LENGTH(32)" using fit by simp
    then have x: "unat ?x = unat b + 63" using unat_add_lem [of b 63] by simp
    have "unat sz + unat (63 :: u32) < 2 ^ LENGTH(32)" using fit by simp
    then have s: "unat (sz + 63) = unat sz + 63" using unat_add_lem [of sz 63] by simp
    have a: "unat ?a = unat ?x - unat ?x mod 64" by (rule unat_align_down)
    have "unat ?x mod 64 \<le> 63" by simp
    then have lo: "unat b \<le> unat ?a" and hi: "unat ?a \<le> unat b + 63"
      unfolding a x by simp_all
    have al: "unat ?a mod 64 = 0" unfolding a by (simp add: minus_mod_eq_mult_div)
    show ?thesis
      unfolding R using lo hi al s by (simp add: aligned_low_bits)
  qed
  from fail ok show ?thesis by blast
qed

theorem alloc_region_post_witness:
  "(let (p, region) = alloc_region demo_malloc 100 in
      p = aligned region \<and> base region = 65537 \<and>
      unat (aligned region) mod 64 = 0 \<and> 65537 \<le> unat (aligned region) \<and>
      unat (aligned region) + 100 \<le> 65700 \<and>
      base_size region = 163 \<and> aligned_size region = 100) \<and>
   alloc_region demo_malloc 5000 =
     (NULL, \<lparr>base = NULL, aligned = NULL, base_size = 0, aligned_size = 0\<rparr>)"
proof -
  have a: "demo_malloc (100 + 63) = 65537 \<and> (65537 :: addr) \<noteq> NULL \<and>
      unat (65537 :: addr) + (unat (100 :: u32) + 63) < 2 ^ 32"
    by (simp add: demo_malloc_def NULL_def)
  have b: "demo_malloc (5000 + 63) = NULL"
    by (simp add: demo_malloc_def)
  from alloc_region_post [of demo_malloc 100 65537] a
  have "let (p, region) = alloc_region demo_malloc 100 in
      p = aligned region \<and> base region = 65537 \<and>
      unat (aligned region) mod 64 = 0 \<and> aligned region AND 63 = 0 \<and>
      unat (65537 :: addr) \<le> unat (aligned region) \<and>
      unat (aligned region) + unat (100 :: u32) \<le> unat (65537 :: addr) + (unat (100 :: u32) + 63) \<and>
      base_size region = 100 + 63 \<and> unat (base_size region) = unat (100 :: u32) + 63 \<and>
      aligned_size region = 100"
    by blast
  moreover from alloc_region_post [of demo_malloc 5000] b
  have "alloc_region demo_malloc 5000 =
     (NULL, \<lparr>base = NULL, aligned = NULL, base_size = 0, aligned_size = 0\<rparr>)"
    by blast
  ultimately show ?thesis by (simp add: split_beta)
qed

text \<open>
  C9. \<open>free_region\<close> always returns 0 and leaves the empty region (\<open>NULL\<close> pointers,
  sizes 0). It hands \<open>base\<close>, not \<open>aligned\<close>, to \<open>free\<close>, and only when \<open>base\<close> is
  not \<open>NULL\<close>. Applied again to the region it leaves, or to any empty region, it
  frees nothing, changes nothing and returns 0.
\<close>

theorem free_region_resets:
  "fst (free_region region freed) = 0 \<and>
   fst (snd (free_region region freed)) =
     \<lparr>base = NULL, aligned = NULL, base_size = 0, aligned_size = 0\<rparr> \<and>
   snd (snd (free_region region freed)) =
     (if base region = NULL then freed else freed @ [base region]) \<and>
   free_region (fst (snd (free_region region freed))) (snd (snd (free_region region freed))) =
     (0, fst (snd (free_region region freed)), snd (snd (free_region region freed))) \<and>
   free_region \<lparr>base = NULL, aligned = NULL, base_size = 0, aligned_size = 0\<rparr> freed =
     (0, \<lparr>base = NULL, aligned = NULL, base_size = 0, aligned_size = 0\<rparr>, freed)"
  by (simp add: free_region_def init_region_def Let_def)

section \<open>The header that is hashed\<close>

lemma le32enc_le32dec:
  assumes "length bs = 4"
  shows "le32enc (le32dec bs) = bs"
proof -
  let ?w = "le32dec bs"
  have 0: "ucast ?w = bs ! 0"
    by (rule bit_word_eqI) (auto simp: le32dec_def bit_simps dest: bit_imp_le_length)
  have 1: "ucast (drop_bit 8 ?w) = bs ! 1"
    by (rule bit_word_eqI) (auto simp: le32dec_def bit_simps dest: bit_imp_le_length)
  have 2: "ucast (drop_bit 16 ?w) = bs ! 2"
    by (rule bit_word_eqI) (auto simp: le32dec_def bit_simps dest: bit_imp_le_length)
  have 3: "ucast (drop_bit 24 ?w) = bs ! 3"
    by (rule bit_word_eqI) (auto simp: le32dec_def bit_simps dest: bit_imp_le_length)
  have "le32enc ?w ! i = bs ! i" if "i < 4" for i
  proof -
    from that consider "i = 0" | "i = 1" | "i = 2" | "i = 3" by linarith
    then show ?thesis unfolding le32enc_def 0 1 2 3 by cases simp_all
  qed
  then show ?thesis using assms by (simp add: list_eq_iff_nth_eq)
qed

lemma length_read_bytes [simp]: "length (read_bytes m p len) = len"
  by (simp add: read_bytes_def)

lemma read_bytes_slice:
  "k + len \<le> n \<Longrightarrow> take len (drop k (read_bytes m p n)) = read_bytes m (p + of_nat k) len"
  by (simp add: list_eq_iff_nth_eq) (simp add: read_bytes_def ac_simps)

lemma store_slice_same:
  "k + len \<le> length xs \<Longrightarrow> store_bytes xs k (take len (drop k xs)) = xs"
  by (simp add: store_bytes_def) (metis append_take_drop_id drop_drop add.commute)

lemma store_same_word:
  assumes "i < 20"
  shows "store_bytes (read_bytes m p 80) (4 * i)
           (le32enc (le32dec (read_bytes m (p + of_nat (i * 4)) 4))) = read_bytes m p 80"
proof -
  have k: "4 * i + 4 \<le> 80" using assms by simp
  have "le32enc (le32dec (read_bytes m (p + of_nat (i * 4)) 4)) =
      read_bytes m (p + of_nat (4 * i)) 4"
    by (simp add: le32enc_le32dec mult.commute)
  also have "\<dots> = take 4 (drop (4 * i) (read_bytes m p 80))"
    using read_bytes_slice [OF k, of m p] by simp
  finally show ?thesis
    using store_slice_same [of "4 * i" 4 "read_bytes m p 80"] k by simp
qed

lemma fold_keep:
  assumes "\<And>i. i \<in> set xs \<Longrightarrow> f i d = d"
  shows "fold f xs d = d"
  using assms by (induction xs) simp_all

text \<open>
  The working copy of the header is the caller's 80 bytes: decoding a word little-endian
  and storing it in the byte order of the machine changes nothing.
\<close>

lemma load_header_copy: "load_header m p = read_bytes m p 80"
  unfolding load_header_def
  by (rule fold_keep) (rule store_same_word, simp)

lemma header_for_copy: "header_for (load_header m p) k = read_bytes m p 76 @ be32enc k"
proof -
  have "take 76 (drop 0 (read_bytes m p 80)) = read_bytes m (p + of_nat 0) 76"
    by (rule read_bytes_slice) simp
  then show ?thesis
    by (simp add: header_for_def store_bytes_def load_header_copy)
qed

text \<open>
  Every header handed to the oracle is the first 76 bytes of the caller's header buffer
  followed by a nonce in big-endian byte order.
\<close>

lemma scan_hashes_callers_header:
  "\<forall>c \<in> set (snd (snd (scan_tidecoin_hash yespower bp tp start mx s))).
     c = read_bytes (mem s) bp 76 @ be32enc (nonce_of c)"
proof -
  from scan_char [of start mx yespower bp tp s]
  obtain m where "snd (snd (scan_tidecoin_hash yespower bp tp start mx s)) =
      map (\<lambda>i. header_for (load_header (mem s) bp) (start + of_nat i)) [0..<Suc m]"
    by auto
  moreover have "header_for (load_header (mem s) bp) k =
      read_bytes (mem s) bp 76 @ be32enc (nonce_of (header_for (load_header (mem s) bp) k))" for k
    unfolding nonce_of_header_for [OF length_load_header] by (rule header_for_copy)
  ultimately show ?thesis by auto
qed

end
